theory Spec2Isabelle
  imports Complex_Main
begin

section \<open>Python values, errors and strings\<close>

text \<open>
  Exceptions are values. A function of the source that can raise returns
  \<open>pyerror + 'a\<close>, with \<open>Inl\<close> the exception. \<open>ValueError\<close> carries the
  first argument the source passes to it, since the source raises the one exception
  class both for a string it cannot parse and for a sample it cannot use.
\<close>

datatype pyerror =
    ValueError string
  | TypeError
  | IndexError
  | KeyError
  | ZeroDivisionError
  | OverflowError

text \<open>
  Strings are ASCII strings: a \<open>char\<close> stands for the code point of the same
  number. The character classes are those of Python 3 on ASCII text: \<open>\d\<close> is
  \<open>0-9\<close>, \<open>\w\<close> is letters, digits and the underscore, and \<open>\s\<close> is the
  six C whitespace characters and the four separators \<open>0x1C .. 0x1F\<close>, which
  \<open>str.isspace\<close> accepts too. \<open>int\<close> strips the six C whitespace characters
  only. Characters from \<open>0x80\<close> on are outside the model: it treats them as
  belonging to no class and as having no other case.
\<close>

definition ascii_uppercase :: string where
  "ascii_uppercase = ''ABCDEFGHIJKLMNOPQRSTUVWXYZ''"

definition ascii_lowercase :: string where
  "ascii_lowercase = ''abcdefghijklmnopqrstuvwxyz''"

definition lower_char :: "char \<Rightarrow> char" where
  "lower_char c =
     (case map_of (zip ascii_uppercase ascii_lowercase) c of None \<Rightarrow> c | Some d \<Rightarrow> d)"

definition upper_char :: "char \<Rightarrow> char" where
  "upper_char c =
     (case map_of (zip ascii_lowercase ascii_uppercase) c of None \<Rightarrow> c | Some d \<Rightarrow> d)"

definition lower :: "string \<Rightarrow> string" where
  "lower s = map lower_char s"

definition is_digit :: "char \<Rightarrow> bool" where
  "is_digit c = (c \<in> set ''0123456789'')"

definition is_word :: "char \<Rightarrow> bool" where
  "is_word c = (c \<in> set ascii_lowercase \<or> c \<in> set ascii_uppercase \<or> is_digit c \<or> c = CHR ''_'')"

definition c_isspace :: "char \<Rightarrow> bool" where
  "c_isspace c = (c \<in> {CHR 0x09, CHR 0x0A, CHR 0x0B, CHR 0x0C, CHR 0x0D, CHR '' ''})"

definition is_space :: "char \<Rightarrow> bool" where
  "is_space c = (c_isspace c \<or> c \<in> {CHR 0x1C, CHR 0x1D, CHR 0x1E, CHR 0x1F})"

definition digit_val :: "char \<Rightarrow> int" where
  "digit_val c = int (of_char c) - 48"

subsection \<open>\<open>int(s)\<close> on a string\<close>

text \<open>
  \<open>int(s)\<close> in base ten: whitespace is stripped at both ends, one sign may follow,
  and the rest is digits, where single underscores may stand between two digits.
  Leading zeros are accepted. Anything else raises \<open>ValueError\<close>. Python integers
  are unbounded, so the result is an \<open>int\<close>. The limit on the number of digits
  that an interpreter can be set to apply (\<open>sys.set_int_max_str_digits\<close>) is not
  modelled.
\<close>

definition strip :: "string \<Rightarrow> string" where
  "strip s = rev (dropWhile c_isspace (rev (dropWhile c_isspace s)))"

fun digits_tail :: "string \<Rightarrow> bool" where
  "digits_tail [] = True"
| "digits_tail [c] = is_digit c"
| "digits_tail (c # d # cs) =
     (if c = CHR ''_'' then is_digit d \<and> digits_tail (d # cs)
      else is_digit c \<and> digits_tail (d # cs))"

definition int_literal :: "string \<Rightarrow> bool" where
  "int_literal b = (case b of [] \<Rightarrow> False | c # cs \<Rightarrow> is_digit c \<and> digits_tail cs)"

definition decimal :: "string \<Rightarrow> int" where
  "decimal ds = foldl (\<lambda>a c. 10 * a + digit_val c) 0 ds"

definition invalid_literal :: pyerror where
  "invalid_literal = ValueError ''invalid literal for int() with base 10''"

definition py_int :: "string \<Rightarrow> pyerror + int" where
  "py_int s =
     (let t = strip s;
          (sign, b) = (case t of
                         [] \<Rightarrow> (1, t)
                       | c # cs \<Rightarrow> if c = CHR ''+'' then (1, cs)
                                  else if c = CHR ''-'' then (- 1, cs)
                                  else (1, t))
      in if int_literal b then Inr (sign * decimal (filter (\<lambda>c. c \<noteq> CHR ''_'') b))
         else Inl invalid_literal)"

section \<open>Size strings\<close>

text \<open>
  \<open>str.find\<close> with a one-character argument: the index of its first occurrence,
  or \<open>-1\<close>.
\<close>

fun str_find :: "string \<Rightarrow> char \<Rightarrow> int" where
  "str_find [] c = - 1"
| "str_find (x # xs) c =
     (if x = c then 0 else (let i = str_find xs c in if i = - 1 then - 1 else i + 1))"

definition parse_size_string_suffixes :: "string \<Rightarrow> string \<Rightarrow> pyerror + int" where
  "parse_size_string_suffixes s suffixes =
     (if s = [] then Inl IndexError
      else let suffix_idx = str_find suffixes (upper_char (last s))
           in if suffix_idx = - 1 then py_int s
              else (case py_int (butlast s) of
                      Inl e \<Rightarrow> Inl e
                    | Inr n \<Rightarrow> Inr (n * 1024 ^ nat (suffix_idx + 1))))"

definition parse_size_string :: "string \<Rightarrow> pyerror + int" where
  "parse_size_string s = parse_size_string_suffixes s ''KMGTPEZY''"

section \<open>Time intervals\<close>










subsection \<open>The strings the pattern describes\<close>







section \<open>Floats\<close>

text \<open>
  A Python float is a binary64 number; the model keeps the rational it denotes, so
  comparisons are exact, as Python's are (also between an \<open>int\<close> and a float).
  \<open>binary64 q\<close> is \<open>q\<close> rounded to the nearest binary64 number, ties to even:
  the unit in the last place is \<open>2 ^ (e - 52)\<close> for \<open>2 ^ e \<le> |q| < 2 ^ (e + 1)\<close>
  and \<open>2 ^ (- 1074)\<close> for the subnormal numbers. \<open>None\<close> stands for a result of
  \<open>2 ^ 1024\<close> or above, which has no finite binary64 number.
\<close>

fun bit_length :: "nat \<Rightarrow> nat" where
  "bit_length n = (if n = 0 then 0 else Suc (bit_length (n div 2)))"

definition pow2 :: "int \<Rightarrow> rat" where
  "pow2 e = (if 0 \<le> e then 2 ^ nat e else 1 / 2 ^ nat (- e))"

definition ilog2 :: "rat \<Rightarrow> int" where
  "ilog2 a =
     (let (n, d) = quotient_of a;
          e0 = int (bit_length (nat n)) - int (bit_length (nat d))
      in if a < pow2 e0 then e0 - 1 else e0)"

definition round_half_even :: "rat \<Rightarrow> int" where
  "round_half_even q =
     (let f = \<lfloor>q\<rfloor>; r = q - of_int f
      in if r < 1 / 2 then f else if 1 / 2 < r then f + 1
         else if even f then f else f + 1)"

definition binary64 :: "rat \<Rightarrow> rat option" where
  "binary64 q =
     (if q = 0 then Some 0
      else let a = \<bar>q\<bar>;
               k = max (ilog2 a - 52) (- 1074);
               r = of_int (round_half_even (a / pow2 k)) * pow2 k
           in if pow2 1024 \<le> r then None else Some (sgn q * r))"

datatype pyval = PyNone | PyInt int | PyFloat rat

text \<open>
  \<open>l / r\<close>. The division of two integers is the exact quotient rounded once, and
  raises \<open>OverflowError\<close> when the result is too large for a float. The samples
  hold integers, so no other operands reach the division; \<open>None\<close> as an operand
  raises \<open>TypeError\<close>, and the clause stands for a float operand too, which no
  sample has.
\<close>

fun py_truediv :: "pyval \<Rightarrow> pyval \<Rightarrow> pyerror + pyval" where
  "py_truediv (PyInt a) (PyInt b) =
     (if b = 0 then Inl ZeroDivisionError
      else (case binary64 (of_int a / of_int b) of
              None \<Rightarrow> Inl OverflowError
            | Some q \<Rightarrow> Inr (PyFloat q)))"
| "py_truediv l r = Inl TypeError"

text \<open>
  \<open>n / 100.0\<close> for an integer \<open>n\<close>: the integer is converted to a float first
  (\<open>OverflowError\<close> when it is too large), then divided as a float.
\<close>

definition int_div_100 :: "int \<Rightarrow> pyerror + pyval" where
  "int_div_100 n =
     (case binary64 (of_int n) of
        None \<Rightarrow> Inl OverflowError
      | Some f \<Rightarrow> (case binary64 (f / 100) of
                    None \<Rightarrow> Inl OverflowError
                  | Some q \<Rightarrow> Inr (PyFloat q)))"

section \<open>Comparison operators\<close>

text \<open>
  \<open>BinaryOperator(op)\<close> evaluates \<open>lambda l, r: l op r\<close>. The grammar of conditions
  admits five operators, which are the values of \<open>cmp_op\<close>. An ordering comparison
  with \<open>None\<close> raises \<open>TypeError\<close>; \<open>==\<close> with \<open>None\<close> on one side only is
  false.
\<close>

datatype cmp_op = OpLt | OpLe | OpGt | OpGe | OpEq

fun num_of :: "pyval \<Rightarrow> rat option" where
  "num_of PyNone = None"
| "num_of (PyInt i) = Some (of_int i)"
| "num_of (PyFloat q) = Some q"

fun cmp_rat :: "cmp_op \<Rightarrow> rat \<Rightarrow> rat \<Rightarrow> bool" where
  "cmp_rat OpLt a b = (a < b)"
| "cmp_rat OpLe a b = (a \<le> b)"
| "cmp_rat OpGt a b = (b < a)"
| "cmp_rat OpGe a b = (b \<le> a)"
| "cmp_rat OpEq a b = (a = b)"

definition BinaryOperator_call :: "cmp_op \<Rightarrow> pyval \<Rightarrow> pyval \<Rightarrow> pyerror + bool" where
  "BinaryOperator_call op l r =
     (case (num_of l, num_of r) of
        (Some a, Some b) \<Rightarrow> Inr (cmp_rat op a b)
      | _ \<Rightarrow> if op = OpEq then Inr (l = r) else Inl TypeError)"

section \<open>CaseInsensitiveDict\<close>

text \<open>
  A Python \<open>dict\<close> keeps its keys in insertion order; it is a list of pairs with
  distinct keys. \<open>dict_get\<close>, \<open>dict_set\<close> are \<open>dict.get\<close> and
  \<open>dict.__setitem__\<close>: a key that is present keeps its place. The methods of
  \<open>CaseInsensitiveDict\<close> are \<open>find_key\<close> (\<open>_find_key\<close>: the first key equal up to
  case, or the key asked for), \<open>lower_keys\<close>, \<open>cid_contains\<close>, \<open>cid_getitem\<close>,
  \<open>cid_setitem\<close> and \<open>cid_get\<close>.
\<close>

type_synonym 'v pydict = "(string \<times> 'v) list"

definition dict_get :: "'v pydict \<Rightarrow> string \<Rightarrow> 'v option" where
  "dict_get d k = map_of d k"

fun dict_set :: "'v pydict \<Rightarrow> string \<Rightarrow> 'v \<Rightarrow> 'v pydict" where
  "dict_set [] k v = [(k, v)]"
| "dict_set ((k', v') # d) k v =
     (if k' = k then (k, v) # d else (k', v') # dict_set d k v)"

definition find_key :: "'v pydict \<Rightarrow> string \<Rightarrow> string" where
  "find_key d key =
     (case filter (\<lambda>k. lower k = lower key) (map fst d) of [] \<Rightarrow> key | k # ks \<Rightarrow> k)"

definition lower_keys :: "'v pydict \<Rightarrow> string list" where
  "lower_keys d = map (\<lambda>k. lower k) (map fst d)"

definition cid_contains :: "'v pydict \<Rightarrow> string \<Rightarrow> bool" where
  "cid_contains d key = (find_key d key \<in> set (lower_keys d))"

definition cid_getitem :: "'v pydict \<Rightarrow> string \<Rightarrow> pyerror + 'v" where
  "cid_getitem d key =
     (case dict_get d (find_key d key) of None \<Rightarrow> Inl KeyError | Some v \<Rightarrow> Inr v)"

definition cid_setitem :: "'v pydict \<Rightarrow> string \<Rightarrow> 'v \<Rightarrow> 'v pydict" where
  "cid_setitem d key val = dict_set d (find_key d key) val"

definition cid_get :: "'v pydict \<Rightarrow> string \<Rightarrow> 'v \<Rightarrow> 'v" where
  "cid_get d key defval =
     (case dict_get d (find_key d key) of None \<Rightarrow> defval | Some v \<Rightarrow> v)"

section \<open>AlertCheck\<close>

subsection \<open>The grammar of conditions\<close>

text \<open>
  \<open>re.split(r'\s*,\s*', conditions)\<close>. \<open>match_sep s\<close> matches the separator at the
  start of \<open>s\<close> and returns the text after it: whitespace, a comma, and all the
  whitespace that follows. The search takes the leftmost match, so a fragment ends
  where the whitespace before a comma begins.
\<close>

definition match_sep :: "string \<Rightarrow> string option" where
  "match_sep s =
     (case dropWhile is_space s of
        [] \<Rightarrow> None
      | c # r \<Rightarrow> if c = CHR '','' then Some (dropWhile is_space r) else None)"

lemma match_sep_shorter:
  assumes "match_sep s = Some rest"
  shows "length rest < length s"
proof -
  from assms obtain c r where d: "dropWhile is_space s = c # r" and r: "rest = dropWhile is_space r"
    by (auto simp: match_sep_def split: list.splits if_splits)
  have "length (dropWhile is_space r) \<le> length r" "length (dropWhile is_space s) \<le> length s"
    by (rule length_dropWhile_le)+
  with d r show ?thesis by simp
qed

function re_split :: "string \<Rightarrow> string \<Rightarrow> string list" where
  "re_split acc [] = [acc]"
| "re_split acc (c # cs) =
     (case match_sep (c # cs) of
        None \<Rightarrow> re_split (acc @ [c]) cs
      | Some rest \<Rightarrow> acc # re_split [] rest)"
  by pat_completeness auto
termination
  by (relation "measure (\<lambda>(acc, s). length s)") (auto dest: match_sep_shorter)

text \<open>
  The operator group \<open>(?P<op>[<>]=?|==)\<close> at the start of a string. After \<open><\<close> or
  \<open>>\<close> a following \<open>=\<close> belongs to the operator: a value never starts with it.
\<close>

definition match_op :: "string \<Rightarrow> (cmp_op \<times> string) option" where
  "match_op s =
     (case s of
        [] \<Rightarrow> None
      | c # cs \<Rightarrow>
          if c = CHR ''<'' then
            (case cs of
               [] \<Rightarrow> Some (OpLt, cs)
             | d # r \<Rightarrow> if d = CHR ''='' then Some (OpLe, r) else Some (OpLt, cs))
          else if c = CHR ''>'' then
            (case cs of
               [] \<Rightarrow> Some (OpGt, cs)
             | d # r \<Rightarrow> if d = CHR ''='' then Some (OpGe, r) else Some (OpGt, cs))
          else if c = CHR ''='' then
            (case cs of
               [] \<Rightarrow> None
             | d # r \<Rightarrow> if d = CHR ''='' then Some (OpEq, r) else None)
          else None)"

text \<open>
  The value group, matched against all of a string: a percentage
  \<open>100%|0%|[1-9]\d?%\<close> or a size \<open>[1-9]\d*[KMGTP]?\<close>.
\<close>

definition is_percentage :: "string \<Rightarrow> bool" where
  "is_percentage v =
     (v = ''100%'' \<or> v = ''0%'' \<or>
      (case v of
         [c, p] \<Rightarrow> c \<in> set ''123456789'' \<and> p = CHR ''%''
       | [c, d, p] \<Rightarrow> c \<in> set ''123456789'' \<and> is_digit d \<and> p = CHR ''%''
       | _ \<Rightarrow> False))"

definition is_size :: "string \<Rightarrow> bool" where
  "is_size v =
     (case v of
        [] \<Rightarrow> False
      | c # cs \<Rightarrow>
          c \<in> set ''123456789'' \<and>
          (case dropWhile is_digit cs of
             [] \<Rightarrow> True
           | [k] \<Rightarrow> k \<in> set ''KMGTP''
           | _ \<Rightarrow> False))"

text \<open>
  \<open>re.fullmatch(re_cmp, cond)\<close> with its groups \<open>(var, op, val)\<close>: the longest run of
  word characters, whitespace, the operator, whitespace, and the value to the end.
\<close>

definition match_re_cmp :: "string \<Rightarrow> (string \<times> cmp_op \<times> string) option" where
  "match_re_cmp cond =
     (let var = takeWhile is_word cond;
          r1 = dropWhile is_space (dropWhile is_word cond)
      in if var = [] then None
         else (case match_op r1 of
                 None \<Rightarrow> None
               | Some (op, r2) \<Rightarrow>
                   (let v = dropWhile is_space r2
                    in if is_percentage v \<or> is_size v then Some (var, op, v) else None)))"

subsection \<open>Construction\<close>

type_synonym condition = "string \<times> cmp_op \<times> pyval \<times> string"

definition parse_val :: "string \<Rightarrow> pyerror + pyval" where
  "parse_val v =
     (if v = [] then Inl IndexError
      else if last v = CHR ''%'' then
        (case py_int (butlast v) of Inl e \<Rightarrow> Inl e | Inr n \<Rightarrow> int_div_100 n)
      else (case parse_size_string v of Inl e \<Rightarrow> Inl e | Inr n \<Rightarrow> Inr (PyInt n)))"

text \<open>
  \<open>AlertCheck.parse\<close>: the loop over the fragments, with \<open>self.conditions\<close> as the
  accumulator. It returns \<open>False\<close> at the first fragment that does not match, and
  \<open>True\<close> at the end of the list.
\<close>

fun AlertCheck_parse :: "condition list \<Rightarrow> string list \<Rightarrow> pyerror + bool \<times> condition list" where
  "AlertCheck_parse conds [] = Inr (True, conds)"
| "AlertCheck_parse conds (cond # rest) =
     (case match_re_cmp cond of
        None \<Rightarrow> Inr (False, conds)
      | Some (var, op, val) \<Rightarrow>
          (case parse_val val of
             Inl e \<Rightarrow> Inl e
           | Inr x \<Rightarrow> AlertCheck_parse (conds @ [(var, op, x, cond)]) rest))"

definition invalid_conditions :: pyerror where
  "invalid_conditions = ValueError ''Invalid condition(s)''"

text \<open>
  \<open>AlertCheck(conditions)\<close>: the constructor returns the object, here its list of
  conditions, or raises, and then the caller has no object.
\<close>

definition AlertCheck_init :: "string \<Rightarrow> pyerror + condition list" where
  "AlertCheck_init conditions =
     (case AlertCheck_parse [] (re_split [] conditions) of
        Inl e \<Rightarrow> Inl e
      | Inr (ok, conds) \<Rightarrow> if ok then Inr conds else Inl invalid_conditions)"

text \<open>
  \<open>parsed_from fragment c\<close>: the condition \<open>c\<close> is what the grammar reads from
  \<open>fragment\<close>: the variable and the operator of the match, the value of the matched
  literal, and the fragment itself as \<open>raw\<close>.
\<close>

definition parsed_from :: "string \<Rightarrow> condition \<Rightarrow> bool" where
  "parsed_from fragment c =
     (case c of (var, op, x, raw) \<Rightarrow>
        raw = fragment \<and>
        (case match_re_cmp fragment of
           None \<Rightarrow> False
         | Some (var', op', v) \<Rightarrow> var = var' \<and> op = op' \<and> parse_val v = Inr x))"

subsection \<open>Evaluation\<close>

definition validate_params :: "'v pydict \<Rightarrow> bool" where
  "validate_params disk_usage =
     (cid_contains disk_usage ''used'' \<and>
      cid_contains disk_usage ''free'' \<and>
      cid_contains disk_usage ''total'')"

definition is_float :: "pyval \<Rightarrow> bool" where
  "is_float v = (case v of PyFloat q \<Rightarrow> True | _ \<Rightarrow> False)"

text \<open>
  The loop of \<open>__call__\<close>. The result is the \<open>raw\<close> text of a condition, or
  \<open>None\<close> for the \<open>False\<close> the source returns when no condition holds.
\<close>

fun check_conditions :: "pyval pydict \<Rightarrow> condition list \<Rightarrow> pyerror + string option" where
  "check_conditions du [] = Inr None"
| "check_conditions du ((var, op, val, raw) # conds) =
     (let var' = (if is_float val then var @ ''_p'' else var)
      in case BinaryOperator_call op (cid_get du var' PyNone) val of
           Inl e \<Rightarrow> Inl e
         | Inr b \<Rightarrow> if b then Inr (Some raw) else check_conditions du conds)"

definition invalid_sample :: pyerror where
  "invalid_sample = ValueError ''Invalid disk usage status object''"

text \<open>
  \<open>set_ratio du name\<close> is the statement \<open>du[name + '_p'] = du[name] / du['total']\<close>.
\<close>

definition set_ratio :: "pyval pydict \<Rightarrow> string \<Rightarrow> pyerror + pyval pydict" where
  "set_ratio du name =
     (case cid_getitem du name of
        Inl e \<Rightarrow> Inl e
      | Inr l \<Rightarrow>
          (case cid_getitem du ''total'' of
             Inl e \<Rightarrow> Inl e
           | Inr r \<Rightarrow>
               (case py_truediv l r of
                  Inl e \<Rightarrow> Inl e
                | Inr q \<Rightarrow> Inr (cid_setitem du (name @ ''_p'') q))))"

text \<open>
  \<open>AlertCheck.__call__\<close> on a sample whose values are integers: the copy into a
  \<open>CaseInsensitiveDict\<close>, the validation, the two ratios and the loop.
\<close>

definition AlertCheck_call :: "condition list \<Rightarrow> int pydict \<Rightarrow> pyerror + string option" where
  "AlertCheck_call conditions disk_usage =
     (let du = map (\<lambda>(k, v). (k, PyInt v)) disk_usage
      in if \<not> validate_params du then Inl invalid_sample
         else (case set_ratio du ''used'' of
                 Inl e \<Rightarrow> Inl e
               | Inr du1 \<Rightarrow>
                   (case set_ratio du1 ''free'' of
                      Inl e \<Rightarrow> Inl e
                    | Inr du2 \<Rightarrow> check_conditions du2 conditions)))"

subsection \<open>What evaluation is claimed to compute\<close>

text \<open>
  The definitions of this subsection follow the words of the specification, not the
  source. A sample is valid when validation accepts it, \<open>total\<close> is not zero and the
  two ratios are floats; \<open>u\<close>, \<open>f\<close>, \<open>t\<close> are its fields and \<open>qu\<close>, \<open>qf\<close> the
  ratios. \<open>field_of\<close> is the field a name stands for, \<open>holds\<close> is the numeric
  comparison of a condition with its field (the \<open>_p\<close> field for a percentage),
  \<open>first_match\<close> is the \<open>raw\<close> text of the first condition that holds, and a
  condition is \<open>canonical\<close> when the name it looks up is one of the five fields.
  \<open>with_ratios\<close> is the dictionary after the two assignments of \<open>__call__\<close>.
\<close>

definition field_of :: "int \<Rightarrow> int \<Rightarrow> int \<Rightarrow> rat \<Rightarrow> rat \<Rightarrow> string \<Rightarrow> rat option" where
  "field_of u f t qu qf name =
     (if name = ''used'' then Some (of_int u)
      else if name = ''free'' then Some (of_int f)
      else if name = ''total'' then Some (of_int t)
      else if name = ''used_p'' then Some qu
      else if name = ''free_p'' then Some qf
      else None)"

definition holds :: "int \<Rightarrow> int \<Rightarrow> int \<Rightarrow> rat \<Rightarrow> rat \<Rightarrow> condition \<Rightarrow> bool" where
  "holds u f t qu qf c =
     (case c of (var, op, val, raw) \<Rightarrow>
        (case (field_of u f t qu qf (lower (if is_float val then var @ ''_p'' else var)),
               num_of val) of
           (Some a, Some b) \<Rightarrow> cmp_rat op a b
         | _ \<Rightarrow> False))"

definition canonical :: "condition \<Rightarrow> bool" where
  "canonical c =
     (case c of (var, op, val, raw) \<Rightarrow>
        val \<noteq> PyNone \<and>
        lower (if is_float val then var @ ''_p'' else var)
          \<in> {''used'', ''free'', ''total'', ''used_p'', ''free_p''})"

definition first_match :: "int \<Rightarrow> int \<Rightarrow> int \<Rightarrow> rat \<Rightarrow> rat \<Rightarrow> condition list \<Rightarrow> string option" where
  "first_match u f t qu qf conds =
     (case find (holds u f t qu qf) conds of
        None \<Rightarrow> None
      | Some (var, op, val, raw) \<Rightarrow> Some raw)"

definition valid_sample :: "int pydict \<Rightarrow> int \<Rightarrow> int \<Rightarrow> int \<Rightarrow> rat \<Rightarrow> rat \<Rightarrow> bool" where
  "valid_sample sample u f t qu qf =
     (validate_params (map (\<lambda>(k, v). (k, PyInt v)) sample) \<and>
      map_of sample ''used'' = Some u \<and>
      map_of sample ''free'' = Some f \<and>
      map_of sample ''total'' = Some t \<and>
      t \<noteq> 0 \<and>
      binary64 (of_int u / of_int t) = Some qu \<and>
      binary64 (of_int f / of_int t) = Some qf)"

definition with_ratios :: "int pydict \<Rightarrow> rat \<Rightarrow> rat \<Rightarrow> pyval pydict" where
  "with_ratios sample qu qf =
     cid_setitem (cid_setitem (map (\<lambda>(k, v). (k, PyInt v)) sample) ''used_p'' (PyFloat qu))
       ''free_p'' (PyFloat qf)"

section \<open>AlertChannel\<close>











section \<open>AlertBuffer\<close>

text \<open>
  The callback \<open>fire\<close> acts on a world \<open>'w\<close> outside the buffer and returns or
  raises. Times are of any linearly ordered type with an addition. \<open>push\<close> reads
  the clock twice: \<open>now1\<close> is the reading it compares with \<open>next_time\<close>, and
  \<open>now2\<close> is the reading after the callback has returned. When the callback
  raises, the exception leaves \<open>push\<close> at once.
\<close>

record ('t, 'w) alert_buffer =
  interval :: 't
  next_time :: 't
  buffer :: "string pydict"
  fire :: "string pydict \<Rightarrow> 'w \<Rightarrow> pyerror option \<times> 'w"

definition AlertBuffer_init ::
  "'t \<Rightarrow> (string pydict \<Rightarrow> 'w \<Rightarrow> pyerror option \<times> 'w) \<Rightarrow> ('t::{linorder, plus, zero}, 'w) alert_buffer" where
  "AlertBuffer_init i f = \<lparr>interval = i, next_time = 0, buffer = [], fire = f\<rparr>"

definition push ::
  "('t::{linorder, plus, zero}, 'w) alert_buffer \<Rightarrow> string \<Rightarrow> string \<Rightarrow> 't \<Rightarrow> 't \<Rightarrow> 'w
     \<Rightarrow> pyerror option \<times> ('t, 'w) alert_buffer \<times> 'w" where
  "push self identifier data now1 now2 w =
     (let self1 = self\<lparr>buffer := dict_set (buffer self) identifier data\<rparr>
      in if next_time self1 \<le> now1 then
           (case fire self1 (buffer self1) w of
              (Some e, w') \<Rightarrow> (Some e, self1, w')
            | (None, w') \<Rightarrow>
                (None, self1\<lparr>buffer := [], next_time := now2 + interval self1\<rparr>, w'))
         else (None, self1, w))"

text \<open>
  What can happen to a buffer: a call of \<open>push\<close>, with its two clock readings, or
  the clock reaching a time while no method runs. The class has no other method and
  starts no thread or timer.
\<close>

datatype 't event = Push string string 't 't | Idle 't

fun step :: "('t::{linorder, plus, zero}, 'w) alert_buffer \<times> 'w \<Rightarrow> 't event
    \<Rightarrow> ('t, 'w) alert_buffer \<times> 'w" where
  "step (self, w) (Push identifier data now1 now2) = snd (push self identifier data now1 now2 w)"
| "step (self, w) (Idle now) = (self, w)"

definition run :: "('t::{linorder, plus, zero}, 'w) alert_buffer \<times> 'w \<Rightarrow> 't event list
    \<Rightarrow> ('t, 'w) alert_buffer \<times> 'w" where
  "run s es = foldl step s es"

text \<open>A callback that records the mappings it is called with and never raises.\<close>

definition record_call :: "string pydict \<Rightarrow> string pydict list \<Rightarrow> pyerror option \<times> string pydict list" where
  "record_call pending calls = (None, calls @ [pending])"

text \<open>The number of calls of \<open>push\<close> among the events.\<close>

definition pushes :: "'t event list \<Rightarrow> nat" where
  "pushes es =
     length (filter (\<lambda>e. case e of Push identifier data now1 now2 \<Rightarrow> True | Idle now \<Rightarrow> False) es)"

section \<open>Properties of the size parser\<close>

lemma py_int_error: "py_int s = Inl e \<Longrightarrow> e = invalid_literal"
  by (auto simp: py_int_def Let_def split: if_splits prod.splits)

lemma str_find_nonneg: "str_find xs c \<noteq> - 1 \<Longrightarrow> 0 \<le> str_find xs c"
  by (induction xs) (auto simp: Let_def split: if_splits)

lemma str_find_none: "(str_find xs c = - 1) = (c \<notin> set xs)"
proof (induction xs)
  case Nil
  show ?case by simp
next
  case (Cons x xs)
  show ?case
    using Cons str_find_nonneg[of xs c] by (auto simp: Let_def)
qed

lemma upper_suffix: "(upper_char c \<in> set ''KMGTPEZY'') = (c \<in> set ''KMGTPEZYkmgtpezy'')"
  unfolding upper_char_def ascii_uppercase_def ascii_lowercase_def
  by (simp split: if_splits)

lemma parse_size_string_plain:
  assumes "s \<noteq> []" and "last s \<notin> set ''KMGTPEZYkmgtpezy''"
  shows "parse_size_string s = py_int s"
  using assms upper_suffix[of "last s"] str_find_none[of "''KMGTPEZY''" "upper_char (last s)"]
  unfolding parse_size_string_def parse_size_string_suffixes_def Let_def
  by (simp del: str_find.simps set_simps)

lemma parse_size_string_unit:
  assumes "i < 8" and "c = ''KMGTPEZY'' ! i \<or> c = ''kmgtpezy'' ! i"
  shows "parse_size_string (p @ [c]) =
     (case py_int p of Inl e \<Rightarrow> Inl invalid_literal | Inr n \<Rightarrow> Inr (n * 1024 ^ (i + 1)))"
proof -
  from assms(1) have "i = 0 \<or> i = 1 \<or> i = 2 \<or> i = 3 \<or> i = 4 \<or> i = 5 \<or> i = 6 \<or> i = 7"
    by arith
  then have "str_find ''KMGTPEZY'' (upper_char c) = int i"
    using assms(2) unfolding upper_char_def ascii_uppercase_def ascii_lowercase_def
    by (elim disjE) auto
  then show ?thesis
    using py_int_error[of p]
    by (auto simp: parse_size_string_def parse_size_string_suffixes_def Let_def nat_add_distrib
        simp del: str_find.simps split: sum.splits)
qed

lemmas eval_int =
  py_int_def strip_def c_isspace_def int_literal_def is_digit_def decimal_def digit_val_def

lemmas eval_size =
  parse_size_string_def parse_size_string_suffixes_def upper_char_def
  ascii_uppercase_def ascii_lowercase_def eval_int



text \<open>
  Claim C10. On the empty string \<open>parse_size_string\<close> raises \<open>IndexError\<close>, from
  \<open>s[-1]\<close>, and not the \<open>ValueError\<close> of a text that is no integer. The empty
  string is the only input on which it raises \<open>IndexError\<close>.
\<close>

theorem parse_size_string_empty:
  "parse_size_string '''' = Inl IndexError \<and>
   parse_size_string '''' \<noteq> Inl invalid_literal \<and>
   (\<forall>s. (parse_size_string s = Inl IndexError) = (s = []))"
proof -
  have only: "(parse_size_string s = Inl IndexError) = (s = [])" for s
    using py_int_error[of s] py_int_error[of "butlast s"]
    by (auto simp: parse_size_string_def parse_size_string_suffixes_def Let_def
        invalid_literal_def split: sum.splits)
  have empty: "parse_size_string [] = Inl IndexError"
    by (simp add: parse_size_string_def parse_size_string_suffixes_def)
  have "parse_size_string [] \<noteq> Inl invalid_literal"
    unfolding empty invalid_literal_def by simp
  with empty only show ?thesis
    by blast
qed

section \<open>Properties of the sample dictionary\<close>

lemma lower_char_idem: "lower_char (lower_char c) = lower_char c"
  unfolding lower_char_def ascii_uppercase_def ascii_lowercase_def
  by (simp split: if_splits)

lemma lower_idem: "lower (lower s) = lower s"
  by (simp add: lower_def lower_char_idem)

text \<open>
  \<open>key in du\<close> holds exactly when the first key of \<open>du\<close> that equals \<open>key\<close> up to
  case is itself the lower-case form of \<open>key\<close>: \<open>__contains__\<close> looks the key it
  found up among the lower-cased keys.
\<close>

lemma cid_contains_iff:
  "cid_contains d key =
     (case filter (\<lambda>k. lower k = lower key) (map fst d) of
        [] \<Rightarrow> False
      | k # ks \<Rightarrow> k = lower key)"
proof (cases "filter (\<lambda>k. lower k = lower key) (map fst d)")
  case Nil
  then have none: "\<forall>k \<in> set (map fst d). lower k \<noteq> lower key"
    by (simp add: filter_empty_conv)
  have "key \<notin> set (lower_keys d)"
  proof
    assume "key \<in> set (lower_keys d)"
    then obtain k where k: "k \<in> set (map fst d)" and "key = lower k"
      by (auto simp: lower_keys_def)
    then have "lower k = lower key" by (simp add: lower_idem)
    with none k show False by blast
  qed
  with Nil show ?thesis by (simp add: cid_contains_def find_key_def)
next
  case (Cons k ks)
  then have "k \<in> set (filter (\<lambda>k. lower k = lower key) (map fst d))" by simp
  then have kin: "k \<in> set (map fst d)" and kl: "lower k = lower key" by auto
  have "(k \<in> set (lower_keys d)) = (k = lower key)"
  proof
    assume "k \<in> set (lower_keys d)"
    then obtain k' where "k = lower k'" by (auto simp: lower_keys_def)
    then have "lower k = k" by (simp add: lower_idem)
    with kl show "k = lower key" by simp
  next
    assume "k = lower key"
    with kl have "k = lower k" by simp
    with kin show "k \<in> set (lower_keys d)" by (force simp: lower_keys_def)
  qed
  with Cons show ?thesis by (simp add: cid_contains_def find_key_def)
qed

lemmas eval_dict =
  lower_def lower_char_def ascii_uppercase_def ascii_lowercase_def
  find_key_def lower_keys_def cid_contains_def cid_getitem_def cid_setitem_def cid_get_def
  dict_get_def validate_params_def

text \<open>
  Claim C1, at the sample \<open>{'Used': 1, 'FREE': 1, 'Total': 2}\<close>. The sample has the
  three fields, in another casing, and \<open>du['used']\<close> finds the value \<open>1\<close>; yet
  \<open>validate_params\<close> is false and evaluation raises the \<open>ValueError\<close> of an invalid
  sample, whatever the conditions are.
\<close>

theorem validate_params_other_casing:
  "cid_getitem [(''Used'', PyInt 1), (''FREE'', PyInt 1), (''Total'', PyInt 2)] ''used''
     = Inr (PyInt 1) \<and>
   validate_params [(''Used'', PyInt 1), (''FREE'', PyInt 1), (''Total'', PyInt 2)] = False \<and>
   AlertCheck_call conds [(''Used'', 1), (''FREE'', 1), (''Total'', 2)] = Inl invalid_sample"
  by (simp add: AlertCheck_call_def eval_dict)

section \<open>Properties of the grammar and of evaluation\<close>

lemmas eval_grammar =
  match_sep_def match_op_def is_percentage_def is_size_def match_re_cmp_def
  is_word_def is_space_def c_isspace_def is_digit_def ascii_uppercase_def ascii_lowercase_def
  parse_val_def AlertCheck_init_def

lemma binary64_half: "binary64 (1 / 2) = Some (1 / 2)"
  by code_simp

lemma int_div_100_95:
  "int_div_100 95 = Inr (PyFloat (4278419646001971 / 4503599627370496))"
  by code_simp

lemma word_not_sep: "is_word c \<Longrightarrow> match_sep (c # cs) = None"
  by (auto simp: match_sep_def is_word_def is_space_def c_isspace_def is_digit_def
      ascii_uppercase_def ascii_lowercase_def)

lemma re_split_word:
  "\<forall>c \<in> set v. is_word c \<Longrightarrow> re_split acc (v @ ''>5'') = [acc @ v @ ''>5'']"
proof (induction v arbitrary: acc)
  case Nil
  show ?case by (simp add: match_sep_def is_space_def c_isspace_def)
next
  case (Cons c v)
  then show ?case by (simp add: word_not_sep)
qed

lemma match_word_gt5:
  assumes "v \<noteq> []" and "\<forall>c \<in> set v. is_word c"
  shows "match_re_cmp (v @ ''>5'') = Some (v, OpGt, ''5'')"
proof -
  have nw: "\<not> is_word (CHR ''>'')"
    by (simp add: is_word_def is_digit_def ascii_uppercase_def ascii_lowercase_def)
  have t: "takeWhile is_word (v @ ''>5'') = v"
    using assms(2) nw by (simp add: takeWhile_append2)
  have d: "dropWhile is_word (v @ ''>5'') = ''>5''"
    using assms(2) nw by (simp add: dropWhile_append2)
  show ?thesis
    unfolding match_re_cmp_def Let_def t d using assms(1)
    by (simp add: match_op_def is_space_def c_isspace_def is_size_def is_percentage_def)
qed

lemma init_word:
  assumes "v \<noteq> []" and "\<forall>c \<in> set v. is_word c"
  shows "AlertCheck_init (v @ ''>5'') = Inr [(v, OpGt, PyInt 5, v @ ''>5'')]"
proof -
  have "parse_val ''5'' = Inr (PyInt 5)"
    by (simp add: parse_val_def eval_size)
  then show ?thesis
    using match_word_gt5[OF assms] re_split_word[OF assms(2), of "[]"]
    by (simp add: AlertCheck_init_def)
qed

lemma init_total_95:
  "AlertCheck_init ''TOTAL > 95%'' =
     Inr [(''TOTAL'', OpGt, PyFloat (4278419646001971 / 4503599627370496), ''TOTAL > 95%'')]"
  by (simp add: eval_grammar eval_int int_div_100_95)

lemma init_foo_5: "AlertCheck_init ''foo > 5'' = Inr [(''foo'', OpGt, PyInt 5, ''foo > 5'')]"
  by (simp add: eval_grammar eval_size)

lemma ratios_50_50:
  "set_ratio [(''total'', PyInt 100), (''used'', PyInt 50), (''free'', PyInt 50)] ''used'' =
     Inr [(''total'', PyInt 100), (''used'', PyInt 50), (''free'', PyInt 50),
          (''used_p'', PyFloat (1 / 2))]"
  "set_ratio [(''total'', PyInt 100), (''used'', PyInt 50), (''free'', PyInt 50),
              (''used_p'', PyFloat (1 / 2))] ''free'' =
     Inr [(''total'', PyInt 100), (''used'', PyInt 50), (''free'', PyInt 50),
          (''used_p'', PyFloat (1 / 2)), (''free_p'', PyFloat (1 / 2))]"
  by (simp_all add: set_ratio_def eval_dict binary64_half)

text \<open>
  Claim C9. The grammar takes any non-empty run of word characters as the variable:
  \<open>v>5\<close> is parsed to one condition on \<open>v\<close>. For \<open>TOTAL > 95%\<close> and for
  \<open>foo > 5\<close> construction succeeds, and on the valid sample
  \<open>{'total': 100, 'used': 50, 'free': 50}\<close> the lookup of \<open>TOTAL_p\<close>, or of
  \<open>foo\<close>, in the dictionary with the two ratios gives \<open>None\<close>, and evaluation
  raises \<open>TypeError\<close>: it returns no result and it is not the \<open>ValueError\<close> of
  an invalid sample.
\<close>

theorem grammar_takes_any_identifier:
  "(\<forall>v. v \<noteq> [] \<and> (\<forall>c \<in> set v. is_word c) \<longrightarrow>
      AlertCheck_init (v @ ''>5'') = Inr [(v, OpGt, PyInt 5, v @ ''>5'')]) \<and>
   validate_params [(''total'', PyInt 100), (''used'', PyInt 50), (''free'', PyInt 50)] \<and>
   (\<exists>du1 du2.
      set_ratio [(''total'', PyInt 100), (''used'', PyInt 50), (''free'', PyInt 50)] ''used''
        = Inr du1 \<and>
      set_ratio du1 ''free'' = Inr du2 \<and>
      cid_get du2 ''TOTAL_p'' PyNone = PyNone \<and>
      cid_get du2 ''foo'' PyNone = PyNone) \<and>
   (\<exists>conds. AlertCheck_init ''TOTAL > 95%'' = Inr conds \<and>
      AlertCheck_call conds [(''total'', 100), (''used'', 50), (''free'', 50)] = Inl TypeError) \<and>
   (\<exists>conds. AlertCheck_init ''foo > 5'' = Inr conds \<and>
      AlertCheck_call conds [(''total'', 100), (''used'', 50), (''free'', 50)] = Inl TypeError)"
proof (intro conjI)
  show "\<forall>v. v \<noteq> [] \<and> (\<forall>c \<in> set v. is_word c) \<longrightarrow>
      AlertCheck_init (v @ ''>5'') = Inr [(v, OpGt, PyInt 5, v @ ''>5'')]"
    using init_word by blast
next
  show "validate_params [(''total'', PyInt 100), (''used'', PyInt 50), (''free'', PyInt 50)]"
    by (simp add: eval_dict)
next
  have "cid_get [(''total'', PyInt 100), (''used'', PyInt 50), (''free'', PyInt 50),
          (''used_p'', PyFloat (1 / 2)), (''free_p'', PyFloat (1 / 2))] ''TOTAL_p'' PyNone = PyNone"
    and "cid_get [(''total'', PyInt 100), (''used'', PyInt 50), (''free'', PyInt 50),
          (''used_p'', PyFloat (1 / 2)), (''free_p'', PyFloat (1 / 2))] ''foo'' PyNone = PyNone"
    by (simp_all add: eval_dict)
  with ratios_50_50 show "\<exists>du1 du2.
      set_ratio [(''total'', PyInt 100), (''used'', PyInt 50), (''free'', PyInt 50)] ''used''
        = Inr du1 \<and>
      set_ratio du1 ''free'' = Inr du2 \<and>
      cid_get du2 ''TOTAL_p'' PyNone = PyNone \<and>
      cid_get du2 ''foo'' PyNone = PyNone"
    by blast
next
  have "AlertCheck_call
      [(''TOTAL'', OpGt, PyFloat (4278419646001971 / 4503599627370496), ''TOTAL > 95%'')]
      [(''total'', 100), (''used'', 50), (''free'', 50)] = Inl TypeError"
    by (simp add: AlertCheck_call_def ratios_50_50 eval_dict is_float_def BinaryOperator_call_def)
  with init_total_95 show "\<exists>conds. AlertCheck_init ''TOTAL > 95%'' = Inr conds \<and>
      AlertCheck_call conds [(''total'', 100), (''used'', 50), (''free'', 50)] = Inl TypeError"
    by blast
next
  have "AlertCheck_call [(''foo'', OpGt, PyInt 5, ''foo > 5'')]
      [(''total'', 100), (''used'', 50), (''free'', 50)] = Inl TypeError"
    by (simp add: AlertCheck_call_def ratios_50_50 eval_dict is_float_def BinaryOperator_call_def)
  with init_foo_5 show "\<exists>conds. AlertCheck_init ''foo > 5'' = Inr conds \<and>
      AlertCheck_call conds [(''total'', 100), (''used'', 50), (''free'', 50)] = Inl TypeError"
    by blast
qed

theorem grammar_takes_any_identifier_witness:
  "AlertCheck_init (''used_p'' @ ''>5'') = Inr [(''used_p'', OpGt, PyInt 5, ''used_p>5'')]"
  using grammar_takes_any_identifier[THEN conjunct1, rule_format, of "''used_p''"]
  by (simp add: is_word_def is_digit_def ascii_uppercase_def ascii_lowercase_def)

section \<open>Properties of the alert buffer\<close>



lemma dict_set_not_empty: "dict_set d k v \<noteq> []"
  by (cases d) (auto split: if_splits)


lemma push_not_due:
  assumes "t_check < next_time self"
  shows "push self ident data t_check t_reset w =
     (None, self\<lparr>buffer := dict_set (buffer self) ident data\<rparr>, w)"
proof -
  from assms have "\<not> next_time self \<le> t_check" by simp
  then show ?thesis by (simp add: push_def Let_def)
qed




lemma run_idle: "run s (map Idle ts) = s"
  unfolding run_def by (induction ts arbitrary: s) (auto simp: split_paired_all)

lemma run_append: "run s (es @ es') = run (run s es) es'"
  by (simp add: run_def)

lemma push_fire: "fire (fst (snd (push self i d n1 n2 w))) = fire self"
  by (simp add: push_def Let_def split: prod.splits option.splits)

lemma push_calls:
  assumes "fire self = record_call"
  shows "length (snd (snd (push self i d n1 n2 calls))) \<le> Suc (length calls)"
  using assms by (simp add: push_def Let_def record_call_def split: prod.splits option.splits)

lemma run_calls:
  "fire self = record_call \<Longrightarrow>
   length (snd (run (self, calls) es)) \<le> length calls + pushes es"
proof (induction es arbitrary: self calls)
  case Nil
  show ?case by (simp add: run_def pushes_def)
next
  case (Cons e es)
  show ?case
  proof (cases e)
    case (Push i d n1 n2)
    obtain err self' calls' where p: "push self i d n1 n2 calls = (err, self', calls')"
      by (cases "push self i d n1 n2 calls") auto
    have f: "fire self' = record_call"
      using push_fire[of self i d n1 n2 calls] p Cons.prems by simp
    have l: "length calls' \<le> Suc (length calls)"
      using push_calls[OF Cons.prems, of i d n1 n2 calls] p by simp
    have "run (self, calls) (e # es) = run (self', calls') es"
      using Push p by (simp add: run_def)
    with Cons.IH[OF f, of calls'] l Push show ?thesis by (simp add: pushes_def)
  next
    case (Idle n)
    then have "run (self, calls) (e # es) = run (self, calls) es" by (simp add: run_def)
    with Cons.IH[OF Cons.prems, of calls] Idle show ?thesis by (simp add: pushes_def)
  qed
qed

text \<open>
  Claim C8. Whatever times the clock reaches while no \<open>push\<close> runs, the buffer and
  the world of the callback stay as they are, also at the end of any history. A
  callback that records its calls has at most one call more for each \<open>push\<close> of a
  history, and none for the rest of it. After a \<open>push\<close> before \<open>next_time\<close> the
  mapping is not empty, and it stays so however far the clock moves on without a
  \<open>push\<close>.
\<close>

theorem fire_only_in_push:
  fixes self :: "('t::{linorder, plus, zero}, 'w) alert_buffer"
    and rec_self :: "('t, string pydict list) alert_buffer"
  shows
  "run (self, w) (map Idle ts) = (self, w) \<and>
   run (self, w) (es @ map Idle ts) = run (self, w) es \<and>
   (fire rec_self = record_call \<longrightarrow>
      length (snd (run (rec_self, calls) es)) \<le> length calls + pushes es) \<and>
   (t_check < next_time self \<longrightarrow>
      (let s = snd (push self ident data t_check t_reset w)
       in buffer (fst s) \<noteq> [] \<and> next_time (fst s) = next_time self \<and> snd s = w \<and>
          run s (map Idle ts) = s))"
proof (intro conjI impI)
  show "run (self, w) (map Idle ts) = (self, w)"
    by (rule run_idle)
next
  show "run (self, w) (es @ map Idle ts) = run (self, w) es"
    by (simp add: run_append run_idle)
next
  assume "fire rec_self = record_call"
  then show "length (snd (run (rec_self, calls) es)) \<le> length calls + pushes es"
    by (rule run_calls)
next
  assume "t_check < next_time self"
  then show "let s = snd (push self ident data t_check t_reset w)
    in buffer (fst s) \<noteq> [] \<and> next_time (fst s) = next_time self \<and> snd s = w \<and>
       run s (map Idle ts) = s"
    by (simp add: push_not_due run_idle dict_set_not_empty Let_def)
qed

theorem fire_only_in_push_witness:
  "length (snd (run (AlertBuffer_init (10::int) record_call, [])
       [Push ''h1'' ''a'' 0 0, Idle 5, Push ''h1'' ''b'' 6 6, Idle 10, Idle 1000])) \<le> 0 + 2 \<and>
   (let s = snd (push \<lparr>interval = 10::int, next_time = 10, buffer = [], fire = record_call\<rparr>
                   ''h1'' ''b'' 6 6 [])
    in buffer (fst s) \<noteq> [] \<and> next_time (fst s) = 10 \<and> snd s = [] \<and>
       run s (map Idle [10, 1000]) = s)"
proof -
  let ?b = "\<lparr>interval = 10::int, next_time = 10, buffer = [], fire = record_call\<rparr>"
  let ?es = "[Push ''h1'' ''a'' 0 0, Idle 5, Push ''h1'' ''b'' 6 6, Idle 10, Idle (1000::int)]"
  have p: "pushes ?es = 2"
    by (simp add: pushes_def)
  have 1: "length (snd (run (AlertBuffer_init (10::int) record_call, []) ?es)) \<le> 0 + 2"
    using fire_only_in_push[where rec_self = "AlertBuffer_init (10::int) record_call"
        and self = ?b and calls = "[]" and es = ?es and t_check = 6 and t_reset = 6
        and ident = "''h1''" and data = "''b''" and w = "[]" and ts = "[10, 1000]"]
    by (simp add: AlertBuffer_init_def p)
  have 2: "let s = snd (push ?b ''h1'' ''b'' 6 6 [])
    in buffer (fst s) \<noteq> [] \<and> next_time (fst s) = 10 \<and> snd s = [] \<and>
       run s (map Idle [10, 1000]) = s"
    using fire_only_in_push[where rec_self = ?b
        and self = ?b and calls = "[]" and es = ?es and t_check = 6 and t_reset = 6
        and ident = "''h1''" and data = "''b''" and w = "[]" and ts = "[10, 1000]"]
    by simp
  from 1 2 show ?thesis by blast
qed

section \<open>Properties of channel resolution\<close>







section \<open>Properties of the floats\<close>

lemma pow2_powi: "pow2 e = power_int 2 e"
proof (cases "0 \<le> e")
  case True
  then show ?thesis by (simp add: pow2_def power_int_def)
next
  case False
  have "inverse (2::rat) ^ nat (- e) = 1 / 2 ^ nat (- e)"
    by (simp add: inverse_eq_divide power_one_over)
  with False show ?thesis by (simp add: pow2_def power_int_def)
qed

lemma pow2_pos: "0 < pow2 e"
  by (simp add: pow2_def)

lemma pow2_mono: "e \<le> e' \<Longrightarrow> pow2 e \<le> pow2 e'"
  unfolding pow2_powi by (rule power_int_increasing) simp_all

lemma bit_length_upper: "m < 2 ^ bit_length m"
proof (induction m rule: bit_length.induct)
  case (1 n)
  show ?case
  proof (cases "n = 0")
    case True
    then show ?thesis by simp
  next
    case False
    with 1 have "n div 2 < 2 ^ bit_length (n div 2)" by simp
    then have "n < 2 * 2 ^ bit_length (n div 2)" by linarith
    with False show ?thesis by (subst bit_length.simps) simp
  qed
qed

lemma bit_length_lower: "0 < m \<Longrightarrow> 2 ^ (bit_length m - 1) \<le> m"
proof (induction m rule: bit_length.induct)
  case (1 n)
  show ?case
  proof (cases "n div 2 = 0")
    case True
    with 1(2) have "bit_length n = 1" by (subst bit_length.simps) (simp)
    with 1(2) show ?thesis by simp
  next
    case False
    with 1 have ih: "2 ^ (bit_length (n div 2) - 1) \<le> n div 2" by simp
    from False have pos: "0 < bit_length (n div 2)" by (subst bit_length.simps) simp
    have "bit_length n = Suc (bit_length (n div 2))"
      using 1(2) by (subst bit_length.simps) simp
    then have "2 ^ (bit_length n - 1) = 2 * 2 ^ (bit_length (n div 2) - 1)"
      using pos by (cases "bit_length (n div 2)") simp_all
    also have "\<dots> \<le> 2 * (n div 2)" using ih by simp
    also have "\<dots> \<le> n" by simp
    finally show ?thesis .
  qed
qed

lemma pow2_ilog2_le:
  assumes "0 < a"
  shows "pow2 (ilog2 a) \<le> a"
proof -
  obtain n d where q: "quotient_of a = (n, d)" by (cases "quotient_of a") auto
  then have d: "0 < d" and a: "a = of_int n / of_int d"
    by (simp_all add: quotient_of_denom_pos quotient_of_div)
  with assms have n: "0 < n" by (simp add: zero_less_divide_iff)
  define bn where "bn = bit_length (nat n)"
  define bd where "bd = bit_length (nat d)"
  let ?e0 = "int bn - int bd"
  have il: "ilog2 a = (if a < pow2 ?e0 then ?e0 - 1 else ?e0)"
    by (simp add: ilog2_def q bn_def bd_def Let_def)
  show ?thesis
  proof (cases "a < pow2 ?e0")
    case False
    with il show ?thesis by simp
  next
    case True
    have "2 ^ (bn - 1) \<le> nat n" unfolding bn_def using n by (intro bit_length_lower) simp
    then have lo: "(2::rat) ^ (bn - 1) \<le> of_int n"
      using n by (metis of_nat_le_iff of_nat_numeral of_nat_power of_int_of_nat_eq int_nat_eq less_imp_le of_int_le_iff of_nat_nat order_less_imp_le)
    have "nat d < 2 ^ bd" unfolding bd_def by (rule bit_length_upper)
    then have hi: "of_int d < (2::rat) ^ bd"
      using d by (metis of_nat_less_iff of_nat_numeral of_nat_power of_int_of_nat_eq of_nat_nat order_less_imp_le of_int_less_iff)
    have bnpos: "0 < bn" unfolding bn_def using n by (subst bit_length.simps) simp
    have "?e0 - 1 = int (bn - 1) - int bd"
      using bnpos by simp
    then have "pow2 (?e0 - 1) = power_int 2 (int (bn - 1) - int bd)"
      by (simp only: pow2_powi)
    also have "\<dots> = power_int 2 (int (bn - 1)) / power_int 2 (int bd)"
      by (rule power_int_diff) simp
    also have "\<dots> = 2 ^ (bn - 1) / 2 ^ bd" by simp
    also have "\<dots> \<le> of_int n / 2 ^ bd" using lo by (simp add: divide_right_mono)
    also have "\<dots> \<le> of_int n / of_int d"
      using hi d n by (intro divide_left_mono) (simp_all)
    finally show ?thesis using il True a by simp
  qed
qed

lemma round_half_even_le: "of_int (round_half_even x) \<le> x + 1"
proof -
  have "round_half_even x = \<lfloor>x\<rfloor> \<or> round_half_even x = \<lfloor>x\<rfloor> + 1"
    by (auto simp: round_half_even_def Let_def)
  then have "of_int (round_half_even x) \<le> (of_int \<lfloor>x\<rfloor> :: rat) + 1"
    by (elim disjE) simp_all
  moreover have "of_int \<lfloor>x\<rfloor> \<le> x" by (rule of_int_floor_le)
  ultimately show ?thesis by linarith
qed

lemma round_half_even_nonneg:
  assumes "0 \<le> x"
  shows "0 \<le> round_half_even x"
proof -
  have "round_half_even x = \<lfloor>x\<rfloor> \<or> round_half_even x = \<lfloor>x\<rfloor> + 1"
    by (auto simp: round_half_even_def Let_def)
  moreover have "0 \<le> \<lfloor>x\<rfloor>" using assms by simp
  ultimately show ?thesis by (elim disjE) simp_all
qed

lemma binary64_small:
  assumes "\<bar>q\<bar> \<le> 2 ^ 1022"
  shows "\<exists>f. binary64 q = Some f \<and> \<bar>f\<bar> < 2 ^ 1024"
proof (cases "q = 0")
  case True
  then show ?thesis by (simp add: binary64_def)
next
  case False
  define a where "a = \<bar>q\<bar>"
  define k where "k = max (ilog2 a - 52) (- 1074)"
  define r where "r = of_int (round_half_even (a / pow2 k)) * pow2 k"
  have apos: "0 < a" using False by (simp add: a_def)
  have "pow2 (ilog2 a - 52) \<le> pow2 (ilog2 a)" by (rule pow2_mono) simp
  also have "\<dots> \<le> a" using apos by (rule pow2_ilog2_le)
  finally have k1: "pow2 (ilog2 a - 52) \<le> a" .
  have k2: "pow2 (- 1074) \<le> 1" by (simp add: pow2_def)
  have pk: "pow2 k \<le> max a 1"
    using k1 k2 unfolding k_def by (auto simp: max_def)
  have "r \<le> (a / pow2 k + 1) * pow2 k"
    unfolding r_def using round_half_even_le[of "a / pow2 k"] pow2_pos[of k]
    by (intro mult_right_mono) simp_all
  also have "\<dots> = a + pow2 k" using pow2_pos[of k] by (simp add: field_simps)
  also have "\<dots> \<le> a + max a 1" using pk by simp
  also have "\<dots> \<le> 2 ^ 1022 + 2 ^ 1022" using assms unfolding a_def by (auto simp: max_def)
  also have "\<dots> < (2::rat) ^ 1024" by simp
  finally have rlt: "r < 2 ^ 1024" .
  have rnn: "0 \<le> r"
    unfolding r_def using apos pow2_pos[of k] round_half_even_nonneg[of "a / pow2 k"] by simp
  have p: "pow2 1024 = 2 ^ 1024" by (simp add: pow2_def)
  have "binary64 q = Some (sgn q * r)"
    using False rlt by (simp add: binary64_def Let_def a_def[symmetric] k_def[symmetric] r_def[symmetric] p)
  moreover have "\<bar>sgn q * r\<bar> = r" using False rnn by (simp add: abs_mult)
  ultimately show ?thesis using rlt by simp
qed

lemma int_div_100_total:
  assumes "\<bar>n\<bar> \<le> 1000"
  shows "\<exists>q. int_div_100 n = Inr (PyFloat q)"
proof -
  have "\<bar>of_int n :: rat\<bar> \<le> 1000" using assms by (metis of_int_abs of_int_le_iff of_int_numeral)
  then have "\<bar>of_int n :: rat\<bar> \<le> 2 ^ 1022" by simp
  then obtain f where f: "binary64 (of_int n) = Some f" and fb: "\<bar>f\<bar> < 2 ^ 1024"
    using binary64_small by blast
  have "\<bar>f / 100\<bar> \<le> 2 ^ 1022" using fb by simp
  then obtain q where "binary64 (f / 100) = Some q" using binary64_small by blast
  with f show ?thesis by (simp add: int_div_100_def)
qed

section \<open>Properties of construction\<close>

lemma digit_facts:
  assumes "is_digit c"
  shows "\<not> c_isspace c" "c \<noteq> CHR ''+''" "c \<noteq> CHR ''-''" "c \<noteq> CHR ''_''" "c \<noteq> CHR ''%''"
    "c \<notin> set ''KMGTPEZYkmgtpezy''" "0 \<le> digit_val c" "digit_val c \<le> 9"
  using assms by (auto simp: is_digit_def c_isspace_def digit_val_def)

lemma nonzero_digit: "c \<in> set ''123456789'' \<Longrightarrow> is_digit c"
  by (auto simp: is_digit_def)

lemma strip_id:
  assumes "s \<noteq> []" and "\<not> c_isspace (hd s)" and "\<not> c_isspace (last s)"
  shows "strip s = s"
proof -
  from assms have 1: "dropWhile c_isspace s = s" by (cases s) simp_all
  from assms have 2: "dropWhile c_isspace (rev s) = rev s"
    by (cases s rule: rev_cases) simp_all
  show ?thesis by (simp add: strip_def 1 2)
qed

lemma digits_tail_all: "\<forall>c \<in> set cs. is_digit c \<Longrightarrow> digits_tail cs"
  by (induction cs rule: digits_tail.induct) (auto dest: digit_facts(4))

lemma py_int_digits:
  assumes "ds \<noteq> []" and "\<forall>c \<in> set ds. is_digit c"
  shows "py_int ds = Inr (decimal ds)"
proof -
  from assms obtain c cs where ds: "ds = c # cs" by (cases ds) auto
  with assms have c: "is_digit c" and cs: "\<forall>c \<in> set cs. is_digit c" by auto
  have "is_digit (last ds)" using assms by (metis last_in_set)
  then have "strip ds = ds"
    using assms c ds by (intro strip_id) (auto dest: digit_facts(1))
  moreover have "int_literal ds"
    using c cs ds by (simp add: int_literal_def digits_tail_all)
  moreover have "filter (\<lambda>c. c \<noteq> CHR ''_'') ds = ds"
    using assms(2) by (auto simp: filter_id_conv dest: digit_facts(4))
  ultimately show ?thesis
    using c ds digit_facts(2,3)[OF c] by (simp add: py_int_def Let_def)
qed

lemma decimal_snoc: "decimal (ds @ [c]) = 10 * decimal ds + digit_val c"
  by (simp add: decimal_def)

lemma decimal_bounds:
  "\<forall>c \<in> set ds. is_digit c \<Longrightarrow> 0 \<le> decimal ds \<and> decimal ds < 10 ^ length ds"
proof (induction ds rule: rev_induct)
  case Nil
  show ?case by (simp add: decimal_def)
next
  case (snoc c ds)
  then have "0 \<le> decimal ds" "decimal ds < 10 ^ length ds" "is_digit c" by auto
  then show ?case
    using digit_facts(7,8)[of c] by (simp add: decimal_snoc)
qed

lemma parse_val_size:
  assumes "is_size v"
  shows "\<exists>n. parse_val v = Inr (PyInt n)"
proof -
  from assms obtain c cs where v: "v = c # cs" and c: "c \<in> set ''123456789''"
    and r: "dropWhile is_digit cs = [] \<or> (\<exists>k. dropWhile is_digit cs = [k] \<and> k \<in> set ''KMGTP'')"
    by (auto simp: is_size_def split: list.splits)
  from c have cd: "is_digit c" by (rule nonzero_digit)
  from r show ?thesis
  proof
    assume "dropWhile is_digit cs = []"
    then have all: "\<forall>c \<in> set cs. is_digit c" by (simp add: dropWhile_eq_Nil_conv)
    with cd v have dv: "\<forall>c \<in> set v. is_digit c" by simp
    have lv: "is_digit (last v)" using dv v by (metis last_in_set list.distinct(1))
    have "parse_size_string v = py_int v"
      using v digit_facts(6)[OF lv] by (intro parse_size_string_plain) simp_all
    also have "\<dots> = Inr (decimal v)" using v dv by (intro py_int_digits) simp_all
    finally show ?thesis
      using v digit_facts(5)[OF lv] by (simp add: parse_val_def)
  next
    assume "\<exists>k. dropWhile is_digit cs = [k] \<and> k \<in> set ''KMGTP''"
    then obtain k where dk: "dropWhile is_digit cs = [k]" and k: "k \<in> set ''KMGTP''" by blast
    define p where "p = c # takeWhile is_digit cs"
    have vp: "v = p @ [k]"
      using v dk takeWhile_dropWhile_id[of is_digit cs] by (simp add: p_def)
    have pd: "\<forall>c \<in> set p. is_digit c"
      using cd by (auto simp: p_def dest: set_takeWhileD)
    have pi: "py_int p = Inr (decimal p)" using pd by (intro py_int_digits) (simp_all add: p_def)
    from k obtain i where "i < 8" "k = ''KMGTPEZY'' ! i"
      by (auto intro: that[of 0] that[of 1] that[of 2] that[of 3] that[of 4])
    then have "parse_size_string v = Inr (decimal p * 1024 ^ (i + 1))"
      using parse_size_string_unit[of i k p] pi vp by simp
    moreover have "last v \<noteq> CHR ''%''" using vp k by auto
    ultimately show ?thesis using vp by (simp add: parse_val_def)
  qed
qed

lemma parse_val_digits_percent:
  assumes "ds \<noteq> []" and "\<forall>c \<in> set ds. is_digit c" and "length ds \<le> 3"
  shows "\<exists>q. parse_val (ds @ ''%'') = Inr (PyFloat q)"
proof -
  have pi: "py_int ds = Inr (decimal ds)" using assms by (intro py_int_digits)
  have "decimal ds < 10 ^ length ds" "0 \<le> decimal ds" using decimal_bounds assms(2) by blast+
  moreover have "(10::int) ^ length ds \<le> 10 ^ 3" using assms(3) by (intro power_increasing) simp_all
  ultimately have "\<bar>decimal ds\<bar> \<le> 1000" by simp
  then obtain q where "int_div_100 (decimal ds) = Inr (PyFloat q)"
    using int_div_100_total by blast
  then show ?thesis using pi by (simp add: parse_val_def)
qed

lemma parse_val_percentage:
  assumes "is_percentage v"
  shows "\<exists>q. parse_val v = Inr (PyFloat q)"
proof -
  from assms obtain ds where "v = ds @ ''%''" "ds \<noteq> []" "\<forall>c \<in> set ds. is_digit c" "length ds \<le> 3"
  proof (cases rule: disjE[OF assms[unfolded is_percentage_def]])
    case 1
    then show ?thesis using that[of "''100''"] by (simp add: is_digit_def)
  next
    case 2
    then show ?thesis
    proof
      assume "v = ''0%''"
      then show ?thesis using that[of "''0''"] by (simp add: is_digit_def)
    next
      assume a: "case v of [] \<Rightarrow> False | [c] \<Rightarrow> False
        | [c, p] \<Rightarrow> c \<in> set ''123456789'' \<and> p = CHR ''%''
        | [c, d, p] \<Rightarrow> c \<in> set ''123456789'' \<and> is_digit d \<and> p = CHR ''%''
        | c # d # p # aa # lista \<Rightarrow> False"
      then consider c where "v = [c, CHR ''%'']" "c \<in> set ''123456789''"
        | c d where "v = [c, d, CHR ''%'']" "c \<in> set ''123456789''" "is_digit d"
        by (auto split: list.splits)
      then show ?thesis
      proof cases
        case 1
        from 1(2) have "is_digit c" by (rule nonzero_digit)
        with 1(1) show ?thesis using that[of "[c]"] by simp
      next
        case 2
        from 2(2) have "is_digit c" by (rule nonzero_digit)
        with 2(1,3) show ?thesis using that[of "[c, d]"] by simp
      qed
    qed
  qed
  then show ?thesis using parse_val_digits_percent by blast
qed

lemma match_re_cmp_value:
  assumes "match_re_cmp f = Some (var, op, v)"
  shows "is_percentage v \<or> is_size v"
  using assms by (auto simp: match_re_cmp_def Let_def split: if_splits option.splits)






lemma last_dropWhile: "dropWhile P xs \<noteq> [] \<Longrightarrow> last (dropWhile P xs) = last xs"
  by (metis last_appendR takeWhile_dropWhile_id)

lemma match_op_last:
  assumes "match_op r = Some (op, r')" and "r' \<noteq> []"
  shows "r \<noteq> []" and "last r' = last r"
  using assms by (auto simp: match_op_def split: list.splits if_splits)

lemma value_last:
  "is_percentage v \<Longrightarrow> v \<noteq> [] \<and> last v = CHR ''%''"
  "is_size v \<Longrightarrow> v \<noteq> [] \<and> last v \<noteq> CHR ''%''"
proof -
  show "is_percentage v \<Longrightarrow> v \<noteq> [] \<and> last v = CHR ''%''"
    by (auto simp: is_percentage_def split: list.splits)
  assume "is_size v"
  then obtain c cs where v: "v = c # cs" and c: "c \<in> set ''123456789''"
    and r: "dropWhile is_digit cs = [] \<or> (\<exists>k. dropWhile is_digit cs = [k] \<and> k \<in> set ''KMGTP'')"
    by (auto simp: is_size_def split: list.splits)
  have cd: "is_digit c" using c by (rule nonzero_digit)
  from r show "v \<noteq> [] \<and> last v \<noteq> CHR ''%''"
  proof
    assume "dropWhile is_digit cs = []"
    then have "\<forall>c \<in> set cs. is_digit c" by (simp add: dropWhile_eq_Nil_conv)
    with cd v have "is_digit (last v)" by (metis last_in_set list.distinct(1) set_ConsD)
    with v show ?thesis using digit_facts(5) by blast
  next
    assume "\<exists>k. dropWhile is_digit cs = [k] \<and> k \<in> set ''KMGTP''"
    then obtain k where dk: "dropWhile is_digit cs = [k]" and k: "k \<in> set ''KMGTP''" by blast
    then have "last cs = k" using last_dropWhile[of is_digit cs] by simp
    moreover from dk have "cs \<noteq> []" by auto
    ultimately have "last v = k" using v by simp
    with k v show ?thesis by auto
  qed
qed

lemma match_re_cmp_last:
  assumes "match_re_cmp f = Some (var, op, v)"
  shows "v \<noteq> []" and "last f = last v"
proof -
  define r0 where "r0 = dropWhile is_word f"
  define r1 where "r1 = dropWhile is_space r0"
  from assms obtain r2 where m: "match_op r1 = Some (op, r2)" and v: "v = dropWhile is_space r2"
    and pv: "is_percentage v \<or> is_size v"
    by (auto simp: match_re_cmp_def Let_def r0_def r1_def split: if_splits option.splits)
  from pv value_last show vne: "v \<noteq> []" by blast
  with v have r2: "r2 \<noteq> []" by auto
  have 1: "last v = last r2" using vne v last_dropWhile by blast
  have 2: "last r2 = last r1" and r1ne: "r1 \<noteq> []" using match_op_last[OF m r2] by simp_all
  have 3: "last r1 = last r0" and r0ne: "r0 \<noteq> []"
    using r1ne last_dropWhile[of is_space r0] by (auto simp: r1_def)
  have 4: "last r0 = last f" using r0ne last_dropWhile[of is_word f] by (simp add: r0_def)
  from 1 2 3 4 show "last f = last v" by simp
qed

lemma parsed_from_typing:
  assumes "parsed_from f (var, op, val, raw)"
  shows "val \<noteq> PyNone" and "is_float val = (last raw = CHR ''%'')"
proof -
  from assms obtain v where raw: "raw = f" and m: "match_re_cmp f = Some (var, op, v)"
    and pv: "parse_val v = Inr val"
    by (auto simp: parsed_from_def split: option.splits)
  from match_re_cmp_value[OF m] have "val \<noteq> PyNone \<and> is_float val = (last v = CHR ''%'')"
  proof
    assume p: "is_percentage v"
    with parse_val_percentage pv obtain q where "val = PyFloat q" by fastforce
    with value_last(1)[OF p] show ?thesis by (simp add: is_float_def)
  next
    assume s: "is_size v"
    with parse_val_size pv obtain n where "val = PyInt n" by fastforce
    with value_last(2)[OF s] show ?thesis by (simp add: is_float_def)
  qed
  with match_re_cmp_last(2)[OF m] raw show "val \<noteq> PyNone" and "is_float val = (last raw = CHR ''%'')"
    by simp_all
qed

lemma parse_true:
  "AlertCheck_parse acc fs = Inr (True, cs) \<Longrightarrow>
   \<exists>cs'. cs = acc @ cs' \<and> list_all2 parsed_from fs cs'"
proof (induction fs arbitrary: acc)
  case Nil
  then show ?case by simp
next
  case (Cons f fs)
  from Cons.prems obtain var op v x where m: "match_re_cmp f = Some (var, op, v)"
    and x: "parse_val v = Inr x"
    and r: "AlertCheck_parse (acc @ [(var, op, x, f)]) fs = Inr (True, cs)"
    by (auto split: option.splits sum.splits)
  from Cons.IH[OF r] obtain cs' where cs: "cs = (acc @ [(var, op, x, f)]) @ cs'"
    and l: "list_all2 parsed_from fs cs'" by blast
  have "parsed_from f (var, op, x, f)" using m x by (simp add: parsed_from_def)
  with cs l show ?case by (intro exI[of _ "(var, op, x, f) # cs'"]) simp
qed

lemma init_parsed:
  assumes "AlertCheck_init s = Inr conds"
  shows "list_all2 parsed_from (re_split [] s) conds"
proof -
  from assms have "AlertCheck_parse [] (re_split [] s) = Inr (True, conds)"
    by (auto simp: AlertCheck_init_def split: sum.splits prod.splits if_splits)
  from parse_true[OF this] show ?thesis by simp
qed

lemma init_typing:
  assumes "AlertCheck_init s = Inr conds" and "(var, op, val, raw) \<in> set conds"
  shows "val \<noteq> PyNone" and "is_float val = (last raw = CHR ''%'')"
proof -
  from init_parsed[OF assms(1)] assms(2) obtain f where "parsed_from f (var, op, val, raw)"
    by (metis in_set_conv_nth list_all2_conv_all_nth)
  then show "val \<noteq> PyNone" and "is_float val = (last raw = CHR ''%'')"
    using parsed_from_typing by blast+
qed



section \<open>Properties of evaluation\<close>

lemma keys_dict_set:
  "map fst (dict_set d k v) = (if k \<in> set (map fst d) then map fst d else map fst d @ [k])"
  by (induction d) (fastforce simp: image_iff)+

lemma map_of_dict_set: "map_of (dict_set d k v) = (map_of d)(k \<mapsto> v)"
  by (induction d) (auto simp: fun_eq_iff)

lemma lower_find_key: "lower (find_key d key) = lower key"
proof (cases "filter (\<lambda>k. lower k = lower key) (map fst d)")
  case Nil
  then show ?thesis by (simp add: find_key_def)
next
  case (Cons k ks)
  then have "k \<in> set (filter (\<lambda>k. lower k = lower key) (map fst d))" by simp
  then have "lower k = lower key" by simp
  with Cons show ?thesis by (simp add: find_key_def)
qed

lemma find_key_dict_set_other:
  assumes "lower k \<noteq> lower key"
  shows "find_key (dict_set d k v) key = find_key d key"
  using assms by (simp add: find_key_def keys_dict_set)

lemma find_key_dict_set_same:
  assumes "lower key' = lower key"
  shows "find_key (dict_set d (find_key d key) v) key' = find_key d key"
proof (cases "filter (\<lambda>k. lower k = lower key) (map fst d)")
  case Nil
  then have fk: "find_key d key = key" by (simp add: find_key_def)
  from Nil have "key \<notin> set (map fst d)"
    by (auto simp: filter_empty_conv)
  then show ?thesis using Nil assms by (simp add: fk find_key_def keys_dict_set)
next
  case (Cons k ks)
  then have fk: "find_key d key = k" by (simp add: find_key_def)
  from Cons have "k \<in> set (filter (\<lambda>k. lower k = lower key) (map fst d))" by simp
  then have "k \<in> set (map fst d)" by simp
  then show ?thesis using Cons assms by (simp add: fk find_key_def keys_dict_set)
qed

lemma cid_get_setitem_same:
  assumes "lower key' = lower key"
  shows "cid_get (cid_setitem d key v) key' dflt = v"
  by (simp add: cid_get_def cid_setitem_def dict_get_def find_key_dict_set_same[OF assms]
      map_of_dict_set)

lemma cid_get_setitem_other:
  assumes "lower key' \<noteq> lower key"
  shows "cid_get (cid_setitem d key v) key' dflt = cid_get d key' dflt"
proof -
  have 1: "lower (find_key d key) \<noteq> lower key'" using assms by (simp add: lower_find_key)
  then have 2: "find_key d key' \<noteq> find_key d key" by (metis lower_find_key)
  show ?thesis
    using 2 by (simp add: cid_get_def cid_setitem_def dict_get_def find_key_dict_set_other[OF 1]
        map_of_dict_set)
qed

lemma cid_getitem_setitem_other:
  assumes "lower key' \<noteq> lower key"
  shows "cid_getitem (cid_setitem d key v) key' = cid_getitem d key'"
proof -
  have 1: "lower (find_key d key) \<noteq> lower key'" using assms by (simp add: lower_find_key)
  then have 2: "find_key d key' \<noteq> find_key d key" by (metis lower_find_key)
  show ?thesis
    using 2 by (simp add: cid_getitem_def cid_setitem_def dict_get_def
        find_key_dict_set_other[OF 1] map_of_dict_set)
qed

lemma contains_find_key:
  assumes "cid_contains d key" and "lower var = lower key"
  shows "find_key d var = lower key"
  using assms unfolding cid_contains_iff find_key_def
  by (auto split: list.splits)

lemma lower_append: "lower (a @ b) = lower a @ lower b"
  by (simp add: lower_def)

lemma lower_lits:
  "lower ''used'' = ''used''" "lower ''free'' = ''free''" "lower ''total'' = ''total''"
  "lower ''used_p'' = ''used_p''" "lower ''free_p'' = ''free_p''" "lower ''_p'' = ''_p''"
  by (simp_all add: lower_def lower_char_def ascii_uppercase_def ascii_lowercase_def)

lemma getitem_valid:
  assumes "cid_contains du key" and "lower key = key" and "map_of du key = Some x"
  shows "cid_getitem du key = Inr x"
  using contains_find_key[OF assms(1), of key] assms(2,3)
  by (simp add: cid_getitem_def dict_get_def)

lemma get_valid:
  assumes "cid_contains du key" and "lower var = key" and "lower key = key"
    and "map_of du key = Some x"
  shows "cid_get du var dflt = x"
  using contains_find_key[OF assms(1), of var] assms(2,3,4)
  by (simp add: cid_get_def dict_get_def)

lemma map_of_as_du:
  "map_of (map (\<lambda>(k, v). (k, PyInt v)) sample) key = map_option PyInt (map_of sample key)"
  by (induction sample) auto

lemma set_ratios:
  assumes "valid_sample sample u f t qu qf"
  shows "set_ratio (map (\<lambda>(k, v). (k, PyInt v)) sample) ''used'' =
           Inr (cid_setitem (map (\<lambda>(k, v). (k, PyInt v)) sample) ''used_p'' (PyFloat qu))"
    and "set_ratio (cid_setitem (map (\<lambda>(k, v). (k, PyInt v)) sample) ''used_p'' (PyFloat qu)) ''free'' =
           Inr (with_ratios sample qu qf)"
proof -
  let ?du = "map (\<lambda>(k, v). (k, PyInt v)) sample"
  let ?du1 = "cid_setitem ?du ''used_p'' (PyFloat qu)"
  from assms have c: "cid_contains ?du ''used''" "cid_contains ?du ''free''" "cid_contains ?du ''total''"
    and m: "map_of ?du ''used'' = Some (PyInt u)" "map_of ?du ''free'' = Some (PyInt f)"
      "map_of ?du ''total'' = Some (PyInt t)"
    and t: "t \<noteq> 0"
    and q: "binary64 (of_int u / of_int t) = Some qu" "binary64 (of_int f / of_int t) = Some qf"
    by (simp_all add: valid_sample_def validate_params_def map_of_as_du)
  have g: "cid_getitem ?du ''used'' = Inr (PyInt u)" "cid_getitem ?du ''free'' = Inr (PyInt f)"
    "cid_getitem ?du ''total'' = Inr (PyInt t)"
    using c m by (simp_all add: getitem_valid lower_lits)
  show "set_ratio ?du ''used'' = Inr ?du1"
    using g t q by (simp add: set_ratio_def)
  have ne: "lower ''free'' \<noteq> lower ''used_p''" "lower ''total'' \<noteq> lower ''used_p''"
    by (simp_all add: lower_lits)
  have g1: "cid_getitem ?du1 ''free'' = Inr (PyInt f)" "cid_getitem ?du1 ''total'' = Inr (PyInt t)"
    using g ne by (simp_all add: cid_getitem_setitem_other)
  show "set_ratio ?du1 ''free'' = Inr (with_ratios sample qu qf)"
    using g1 t q by (simp add: set_ratio_def with_ratios_def)
qed

lemma lookup_field:
  assumes "valid_sample sample u f t qu qf"
    and "lower name \<in> {''used'', ''free'', ''total'', ''used_p'', ''free_p''}"
  shows "num_of (cid_get (with_ratios sample qu qf) name PyNone) =
           field_of u f t qu qf (lower name)"
proof -
  let ?du = "map (\<lambda>(k, v). (k, PyInt v)) sample"
  from assms(1) have c: "cid_contains ?du ''used''" "cid_contains ?du ''free''" "cid_contains ?du ''total''"
    and m: "map_of ?du ''used'' = Some (PyInt u)" "map_of ?du ''free'' = Some (PyInt f)"
      "map_of ?du ''total'' = Some (PyInt t)"
    by (simp_all add: valid_sample_def validate_params_def map_of_as_du)
  from assms(2) consider "lower name = ''used''" | "lower name = ''free''" | "lower name = ''total''"
    | "lower name = ''used_p''" | "lower name = ''free_p''" by auto
  then show ?thesis
  proof cases
    case 1
    then have "cid_get (with_ratios sample qu qf) name PyNone = cid_get ?du name PyNone"
      by (simp add: with_ratios_def cid_get_setitem_other lower_lits)
    also have "\<dots> = PyInt u" using c(1) 1 m(1) by (intro get_valid) (simp_all add: lower_lits)
    finally show ?thesis using 1 by (simp add: field_of_def)
  next
    case 2
    then have "cid_get (with_ratios sample qu qf) name PyNone = cid_get ?du name PyNone"
      by (simp add: with_ratios_def cid_get_setitem_other lower_lits)
    also have "\<dots> = PyInt f" using c(2) 2 m(2) by (intro get_valid) (simp_all add: lower_lits)
    finally show ?thesis using 2 by (simp add: field_of_def)
  next
    case 3
    then have "cid_get (with_ratios sample qu qf) name PyNone = cid_get ?du name PyNone"
      by (simp add: with_ratios_def cid_get_setitem_other lower_lits)
    also have "\<dots> = PyInt t" using c(3) 3 m(3) by (intro get_valid) (simp_all add: lower_lits)
    finally show ?thesis using 3 by (simp add: field_of_def)
  next
    case 4
    then have "cid_get (with_ratios sample qu qf) name PyNone = PyFloat qu"
      by (simp add: with_ratios_def cid_get_setitem_other cid_get_setitem_same lower_lits)
    then show ?thesis using 4 by (simp add: field_of_def)
  next
    case 5
    then have "cid_get (with_ratios sample qu qf) name PyNone = PyFloat qf"
      by (simp add: with_ratios_def cid_get_setitem_same lower_lits)
    then show ?thesis using 5 by (simp add: field_of_def)
  qed
qed

lemma field_of_some:
  "name \<in> {''used'', ''free'', ''total'', ''used_p'', ''free_p''} \<Longrightarrow>
   \<exists>a. field_of u f t qu qf name = Some a"
  by (auto simp: field_of_def)

lemma compare_canonical:
  assumes "valid_sample sample u f t qu qf" and "canonical (var, op, val, raw)"
  shows "BinaryOperator_call op
           (cid_get (with_ratios sample qu qf) (if is_float val then var @ ''_p'' else var) PyNone)
           val = Inr (holds u f t qu qf (var, op, val, raw))"
proof -
  let ?name = "if is_float val then var @ ''_p'' else var"
  from assms(2) have n: "lower ?name \<in> {''used'', ''free'', ''total'', ''used_p'', ''free_p''}"
    and v: "val \<noteq> PyNone"
    by (simp_all add: canonical_def)
  from field_of_some[OF n] obtain a where a: "field_of u f t qu qf (lower ?name) = Some a" by blast
  from v obtain b where b: "num_of val = Some b" by (cases val) auto
  have "num_of (cid_get (with_ratios sample qu qf) ?name PyNone) = Some a"
    using lookup_field[OF assms(1) n] a by simp
  with a b show ?thesis
    by (simp add: BinaryOperator_call_def holds_def)
qed

lemma check_canonical:
  assumes "valid_sample sample u f t qu qf" and "\<forall>c \<in> set conds. canonical c"
  shows "check_conditions (with_ratios sample qu qf) conds = Inr (first_match u f t qu qf conds)"
  using assms(2)
proof (induction conds)
  case Nil
  show ?case by (simp add: first_match_def)
next
  case (Cons c conds)
  obtain var op val raw where c: "c = (var, op, val, raw)" by (cases c) auto
  with Cons.prems have "canonical (var, op, val, raw)" by simp
  from compare_canonical[OF assms(1) this] Cons c show ?case
    by (simp add: first_match_def Let_def)
qed

lemma call_canonical:
  assumes "valid_sample sample u f t qu qf" and "\<forall>c \<in> set conds. canonical c"
  shows "AlertCheck_call conds sample = Inr (first_match u f t qu qf conds)"
proof -
  have "validate_params (map (\<lambda>(k, v). (k, PyInt v)) sample)"
    using assms(1) by (simp add: valid_sample_def)
  then show ?thesis
    using set_ratios[OF assms(1)] check_canonical[OF assms]
    by (simp add: AlertCheck_call_def)
qed

text \<open>
  Claim C3, as amended. A condition that the constructor has built has a float
  threshold when its text ends in \<open>%\<close> and an integer threshold otherwise. For
  every valid sample and every list of canonical
  conditions, evaluation returns the \<open>raw\<close> text of the first condition, in the
  order of the list, whose numeric comparison holds, where a condition with a float
  threshold is compared with the ratio of its variable and one with an integer
  threshold with the field itself; when no condition holds it returns \<open>None\<close>.
\<close>

theorem first_match_of_canonical:
  "(AlertCheck_init s = Inr built \<and> (var, op, val, raw) \<in> set built \<longrightarrow>
      val \<noteq> PyNone \<and> is_float val = (last raw = CHR ''%'')) \<and>
   (valid_sample sample u f t qu qf \<and> (\<forall>c \<in> set conds. canonical c) \<longrightarrow>
      AlertCheck_call conds sample = Inr (first_match u f t qu qf conds))"
  using call_canonical init_typing by blast

theorem first_match_of_canonical_witness:
  "is_float (PyFloat (4278419646001971 / 4503599627370496)) = (last ''TOTAL > 95%'' = CHR ''%'') \<and>
   AlertCheck_call
     [(''FREE'', OpLt, PyInt 1, ''FREE < 1''), (''USED'', OpGe, PyFloat (1 / 2), ''USED >= 50%''),
      (''Total'', OpGt, PyInt 1, ''Total > 1'')]
     [(''total'', 2), (''used'', 1), (''free'', 1)] = Inr (Some ''USED >= 50%'') \<and>
   AlertCheck_call
     [(''FREE'', OpLt, PyInt 1, ''FREE < 1''), (''USED'', OpGt, PyFloat (1 / 2), ''USED > 50%'')]
     [(''total'', 2), (''used'', 1), (''free'', 1)] = Inr None"
proof -
  let ?sample = "[(''total'', 2), (''used'', 1), (''free'', 1 :: int)]"
  have v: "valid_sample ?sample 1 1 2 (1 / 2) (1 / 2)"
    by (simp add: valid_sample_def eval_dict binary64_half)
  have c: "\<forall>c \<in> set [(''FREE'', OpLt, PyInt 1, ''FREE < 1''),
        (''USED'', OpGe, PyFloat (1 / 2), ''USED >= 50%''),
        (''Total'', OpGt, PyInt 1, ''Total > 1''),
        (''USED'', OpGt, PyFloat (1 / 2), ''USED > 50%'')]. canonical c"
    by (simp add: canonical_def is_float_def lower_def lower_char_def ascii_uppercase_def
        ascii_lowercase_def)
  have 1: "AlertCheck_call
     [(''FREE'', OpLt, PyInt 1, ''FREE < 1''), (''USED'', OpGe, PyFloat (1 / 2), ''USED >= 50%''),
      (''Total'', OpGt, PyInt 1, ''Total > 1'')] ?sample = Inr (Some ''USED >= 50%'')"
    using first_match_of_canonical[THEN conjunct2, of ?sample 1 1 2 "1 / 2" "1 / 2"
        "[(''FREE'', OpLt, PyInt 1, ''FREE < 1''),
          (''USED'', OpGe, PyFloat (1 / 2), ''USED >= 50%''),
          (''Total'', OpGt, PyInt 1, ''Total > 1'')]"] v c
    by (simp add: first_match_def holds_def field_of_def is_float_def lower_def lower_char_def
        ascii_uppercase_def ascii_lowercase_def)
  have 2: "AlertCheck_call
     [(''FREE'', OpLt, PyInt 1, ''FREE < 1''), (''USED'', OpGt, PyFloat (1 / 2), ''USED > 50%'')]
     ?sample = Inr None"
    using first_match_of_canonical[THEN conjunct2, of ?sample 1 1 2 "1 / 2" "1 / 2"
        "[(''FREE'', OpLt, PyInt 1, ''FREE < 1''),
          (''USED'', OpGt, PyFloat (1 / 2), ''USED > 50%'')]"] v c
    by (simp add: first_match_def holds_def field_of_def is_float_def lower_def lower_char_def
        ascii_uppercase_def ascii_lowercase_def)
  have 0: "is_float (PyFloat (4278419646001971 / 4503599627370496)) =
      (last ''TOTAL > 95%'' = CHR ''%'')"
    using first_match_of_canonical[THEN conjunct1, of "''TOTAL > 95%''"
        "[(''TOTAL'', OpGt, PyFloat (4278419646001971 / 4503599627370496), ''TOTAL > 95%'')]"
        "''TOTAL''" OpGt "PyFloat (4278419646001971 / 4503599627370496)" "''TOTAL > 95%''"]
      init_total_95
    by simp
  from 0 1 2 show ?thesis by blast
qed

text \<open>
  The claim C3 as it was stated fails: \<open>foo < 5, USED > 10\<close> is accepted by the
  constructor, the sample \<open>{'total': 100, 'used': 50, 'free': 50}\<close> is valid and
  \<open>USED > 10\<close> holds on it, yet evaluation returns neither that text nor \<open>None\<close>:
  it raises \<open>TypeError\<close> at the first condition.
\<close>

theorem first_match_counterexample:
  "AlertCheck_init ''foo < 5, USED > 10'' =
     Inr [(''foo'', OpLt, PyInt 5, ''foo < 5''), (''USED'', OpGt, PyInt 10, ''USED > 10'')] \<and>
   validate_params [(''total'', PyInt 100), (''used'', PyInt 50), (''free'', PyInt 50)] \<and>
   AlertCheck_call [(''USED'', OpGt, PyInt 10, ''USED > 10'')]
     [(''total'', 100), (''used'', 50), (''free'', 50)] = Inr (Some ''USED > 10'') \<and>
   AlertCheck_call [(''foo'', OpLt, PyInt 5, ''foo < 5''), (''USED'', OpGt, PyInt 10, ''USED > 10'')]
     [(''total'', 100), (''used'', 50), (''free'', 50)] = Inl TypeError"
proof (intro conjI)
  show "AlertCheck_init ''foo < 5, USED > 10'' =
     Inr [(''foo'', OpLt, PyInt 5, ''foo < 5''), (''USED'', OpGt, PyInt 10, ''USED > 10'')]"
    by (simp add: eval_grammar eval_size)
next
  show "validate_params [(''total'', PyInt 100), (''used'', PyInt 50), (''free'', PyInt 50)]"
    by (simp add: eval_dict)
next
  show "AlertCheck_call [(''USED'', OpGt, PyInt 10, ''USED > 10'')]
     [(''total'', 100), (''used'', 50), (''free'', 50)] = Inr (Some ''USED > 10'')"
    by (simp add: AlertCheck_call_def ratios_50_50 eval_dict is_float_def BinaryOperator_call_def)
next
  show "AlertCheck_call
     [(''foo'', OpLt, PyInt 5, ''foo < 5''), (''USED'', OpGt, PyInt 10, ''USED > 10'')]
     [(''total'', 100), (''used'', 50), (''free'', 50)] = Inl TypeError"
    by (simp add: AlertCheck_call_def ratios_50_50 eval_dict is_float_def BinaryOperator_call_def)
qed

section \<open>Properties of the interval parser\<close>


























end
